theory Spec2Isabelle
  imports Complex_Main "HOL-Library.Multiset" "HOL-Library.Char_ord" "HOL-Library.List_Lexorder"
begin

section \<open>The k-mer overlap assembler of Project_L5/L5/2ex.py\<close>

subsection \<open>Python values used by the assembler\<close>

text \<open>
  The only exception the assembler can raise on string inputs is the \<open>IndexError\<close> of
  \<open>nxt[-1]\<close> on an empty string (line 97).
\<close>

datatype error = IndexError

text \<open>
  A \<open>Counter\<close> is a dictionary from strings to counts; dictionaries keep insertion order,
  which \<open>most_common\<close> and \<open>graph.keys()\<close> expose, so both are association lists in
  insertion order. \<open>defaultdict(Counter)\<close> is a dictionary of such counters.
\<close>

type_synonym counter = "(string \<times> nat) list"
type_synonym graph = "(string \<times> counter) list"

text \<open>\<open>c[b] += 1\<close> on a Counter: a missing key reads as 0 and is appended at the end.\<close>

fun incr :: "string \<Rightarrow> counter \<Rightarrow> counter" where
  "incr b [] = [(b, 1)]"
| "incr b ((x, n) # c) = (if x = b then (x, n + 1) # c else (x, n) # incr b c)"

text \<open>\<open>edges[a][b] += 1\<close> on the defaultdict: a missing \<open>a\<close> gets a fresh Counter at the end.\<close>

fun add_edge :: "string \<Rightarrow> string \<Rightarrow> graph \<Rightarrow> graph" where
  "add_edge a b [] = [(a, [(b, 1)])]"
| "add_edge a b ((x, c) # g) =
     (if x = a then (x, incr b c) # g else (x, c) # add_edge a b g)"

text \<open>Normalisation of one bound of a slice over a sequence of length \<open>n\<close>.\<close>

definition py_index :: "nat \<Rightarrow> int \<Rightarrow> nat" where
  "py_index n i = (if i < 0 then nat (max (int n + i) 0) else min (nat i) n)"

text \<open>\<open>xs[lo:hi]\<close>: empty when the normalised upper bound is not above the lower one.\<close>

definition py_slice :: "'a list \<Rightarrow> int \<Rightarrow> int \<Rightarrow> 'a list" where
  "py_slice xs lo hi =
     (let n = length xs; l = py_index n lo; h = py_index n hi
      in take (h - l) (drop l xs))"

text \<open>\<open>range(m)\<close>: empty for \<open>m \<le> 0\<close>.\<close>

definition py_range :: "int \<Rightarrow> int list" where
  "py_range m = map int [0..<nat m]"

subsection \<open>make_graph (lines 67-83)\<close>

text \<open>
  The state of the two nested loops is the triple \<open>(edges, indeg, outdeg)\<close>.
  \<open>frag[:-1]\<close> is \<open>butlast frag\<close> and \<open>frag[1:]\<close> is \<open>tl frag\<close>, both empty on the
  empty string. \<open>k\<close> is a Python integer and is not checked by the source.
\<close>

type_synonym gstate = "graph \<times> counter \<times> counter"

definition window_step :: "string \<Rightarrow> int \<Rightarrow> gstate \<Rightarrow> int \<Rightarrow> gstate" where
  "window_step r k s i =
     (case s of (edges, indeg, outdeg) \<Rightarrow>
        let frag = py_slice r i (i + k) in
        if CHR ''N'' \<in> set frag then s
        else let a = butlast frag; b = tl frag
             in (add_edge a b edges, incr b indeg, incr a outdeg))"

definition read_step :: "int \<Rightarrow> gstate \<Rightarrow> string \<Rightarrow> gstate" where
  "read_step k s r =
     (if int (length r) < k then s
      else foldl (window_step r k) s (py_range (int (length r) - k + 1)))"

definition make_graph :: "string list \<Rightarrow> int \<Rightarrow> gstate" where
  "make_graph reads k = foldl (read_step k) ([], [], []) reads"

text \<open>The fragments \<open>r[i:i+k]\<close> that lines 72-75 enumerate for one read, in order.\<close>

definition windows :: "string \<Rightarrow> int \<Rightarrow> string list" where
  "windows r k =
     (if int (length r) < k then []
      else map (\<lambda>i. py_slice r i (i + k)) (py_range (int (length r) - k + 1)))"

text \<open>The multiplicity \<open>edges[a][b]\<close> of an edge, 0 when absent.\<close>

definition multiplicity :: "graph \<Rightarrow> string \<Rightarrow> string \<Rightarrow> nat" where
  "multiplicity g a b =
     (case map_of g a of None \<Rightarrow> 0
      | Some c \<Rightarrow> (case map_of c b of None \<Rightarrow> 0 | Some n \<Rightarrow> n))"

subsection \<open>walk_contigs (lines 86-105)\<close>

text \<open>
  \<open>c.most_common(1)\<close> is \<open>heapq.nlargest(1, c.items(), key=count)\<close>, which for one
  element is \<open>max\<close> over the items in insertion order: a later item replaces the best one
  only when its count is strictly greater.
\<close>

fun max_item :: "string \<times> nat \<Rightarrow> counter \<Rightarrow> string \<times> nat" where
  "max_item best [] = best"
| "max_item best (y # ys) = max_item (if snd best < snd y then y else best) ys"

text \<open>\<open>c.most_common(1)[0][0]\<close> on a non-empty counter.\<close>

definition select_next :: "counter \<Rightarrow> string" where
  "select_next c = fst (max_item (hd c) (tl c))"

definition length_cap :: nat where
  "length_cap = 2000000"

text \<open>
  The \<open>while\<close> loop of lines 95-103 with its state \<open>(cur, seq, visited)\<close>.
  \<open>graph.get(cur)\<close> is false for a missing key and for an empty counter.
\<close>

function extend :: "graph \<Rightarrow> string \<Rightarrow> string \<Rightarrow> string set \<Rightarrow> error + (string \<times> string set)" where
  "extend graph cur seq visited =
     (case map_of graph cur of
        None \<Rightarrow> Inr (seq, visited)
      | Some c \<Rightarrow>
          if c = [] then Inr (seq, visited)
          else let nxt = select_next c in
            if nxt = [] then Inl IndexError
            else let seq' = seq @ [last nxt] in
              if nxt \<in> visited then Inr (seq', visited)
              else let visited' = insert nxt visited in
                if length_cap < length seq' then Inr (seq', visited')
                else extend graph nxt seq' visited')"
  by pat_completeness auto
termination
  by (relation "measure (\<lambda>(graph, cur, seq, visited). length_cap - length seq)") auto

declare extend.simps [simp del]

text \<open>The \<open>for start in list(graph.keys())\<close> loop with its state \<open>(contigs, visited)\<close>.\<close>

fun walk_starts :: "graph \<Rightarrow> string list \<Rightarrow> string list \<Rightarrow> string set \<Rightarrow> error + string list" where
  "walk_starts graph [] contigs visited = Inr contigs"
| "walk_starts graph (start # rest) contigs visited =
     (if start \<in> visited then walk_starts graph rest contigs visited
      else case extend graph start start (insert start visited) of
             Inl e \<Rightarrow> Inl e
           | Inr (seq, visited') \<Rightarrow> walk_starts graph rest (contigs @ [seq]) visited')"

definition walk_contigs :: "graph \<Rightarrow> error + string list" where
  "walk_contigs graph = walk_starts graph (map fst graph) [] {}"

subsection \<open>run_assembly (lines 108-123)\<close>

text \<open>
  The loop of lines 118-122: \<open>n50\<close> stays 0 when the list is exhausted.
  \<open>half\<close> is the float \<open>sum(lengths) / 2.0\<close>, exact for every sum below \<open>2^53\<close>;
  it is a real number here.
\<close>

fun n50_loop :: "real \<Rightarrow> nat \<Rightarrow> nat list \<Rightarrow> nat" where
  "n50_loop half acc [] = 0"
| "n50_loop half acc (L # Ls) =
     (if half \<le> real (acc + L) then L else n50_loop half (acc + L) Ls)"

text \<open>Line 113: \<open>sorted((len(c) for c in contigs), reverse=True)\<close>.\<close>

definition sorted_lengths :: "string list \<Rightarrow> nat list" where
  "sorted_lengths contigs = rev (sort (map length contigs))"

text \<open>Lines 113-122: the N50 of a list of contigs.\<close>

definition contigs_n50 :: "string list \<Rightarrow> nat" where
  "contigs_n50 contigs =
     (let lengths = sorted_lengths contigs in
      if lengths = [] then 0
      else n50_loop (real (sum_list lengths) / 2) 0 lengths)"

text \<open>
  The result without the wall-clock \<open>elapsed_ms\<close>: \<open>(n50, len(contigs))\<close>, or the
  exception that escapes.
\<close>

definition run_assembly :: "string list \<Rightarrow> int \<Rightarrow> error + (nat \<times> nat)" where
  "run_assembly reads k =
     (case make_graph reads k of (graph, indeg, outdeg) \<Rightarrow>
        (case walk_contigs graph of
           Inl e \<Rightarrow> Inl e
         | Inr contigs \<Rightarrow> Inr (contigs_n50 contigs, length contigs)))"

subsection \<open>Vocabulary of the properties\<close>

text \<open>The nodes of a graph: its keys and the targets in their counters.\<close>

definition nodes :: "graph \<Rightarrow> string list" where
  "nodes g = concat (map (\<lambda>(a, c). a # map fst c) g)"

text \<open>
  Every key has a non-empty counter, and every edge \<open>(a, b)\<close> of the graph satisfies \<open>P\<close>.
\<close>

definition edges_ok :: "(string \<Rightarrow> string \<Rightarrow> bool) \<Rightarrow> graph \<Rightarrow> bool" where
  "edges_ok P g = list_all (\<lambda>(a, c). c \<noteq> [] \<and> list_all (\<lambda>(b, n). P a b) c) g"

text \<open>
  One step of a walk: \<open>b\<close> is the target that line 96 selects at the node \<open>a\<close>, which has
  outgoing edges.
\<close>

definition follows :: "graph \<Rightarrow> string \<Rightarrow> string \<Rightarrow> bool" where
  "follows g a b = (\<exists>c. map_of g a = Some c \<and> c \<noteq> [] \<and> b = select_next c)"

section \<open>Properties\<close>

subsection \<open>Shared facts\<close>

lemma run_assembly_fst:
  "run_assembly reads k =
     (case walk_contigs (fst (make_graph reads k)) of
        Inl e \<Rightarrow> Inl e
      | Inr contigs \<Rightarrow> Inr (contigs_n50 contigs, length contigs))"
  by (simp add: run_assembly_def split: prod.split)

lemma example_graph:
  "fst (make_graph [''ACGTT'', ''CGTTG'', ''GTTGC'', ''TTGCA''] 4) =
     [(''ACG'', [(''CGT'', 1)]), (''CGT'', [(''GTT'', 2)]), (''GTT'', [(''TTG'', 2)]),
      (''TTG'', [(''TGC'', 2)]), (''TGC'', [(''GCA'', 1)])]"
  by (simp add: make_graph_def read_step_def window_step_def py_range_def py_slice_def
      py_index_def upt_rec Let_def)

lemma example_walk:
  "walk_contigs [(''ACG'', [(''CGT'', 1)]), (''CGT'', [(''GTT'', 2)]), (''GTT'', [(''TTG'', 2)]),
      (''TTG'', [(''TGC'', 2)]), (''TGC'', [(''GCA'', 1)])] = Inr [''ACGTTGCA'']"
  by (simp add: walk_contigs_def extend.simps select_next_def length_cap_def Let_def)

lemma make_graph_all_short:
  "\<forall>r\<in>set reads. int (length r) < k \<Longrightarrow> foldl (read_step k) s reads = s"
  by (induction reads arbitrary: s) (simp_all add: read_step_def)

lemma empty_graph_result:
  "fst (make_graph reads k) = [] \<Longrightarrow> run_assembly reads k = Inr (0, 0)"
  by (simp add: run_assembly_fst walk_contigs_def contigs_n50_def sorted_lengths_def)

subsection \<open>Exact reconstruction of a repeat-free genome\<close>

text \<open>
  C1. For the reads \<open>ACGTT, CGTTG, GTTGC, TTGCA\<close> of the genome \<open>ACGTTGCA\<close> and
  \<open>k = 4\<close>, the first key of the graph is \<open>ACG\<close>, the walk seeded there returns the
  genome, and it is the only contig of the traversal; the six 3-mers of the genome are
  pairwise distinct.
\<close>

theorem reconstruct_ACGTTGCA:
  "map fst (fst (make_graph [''ACGTT'', ''CGTTG'', ''GTTGC'', ''TTGCA''] 4)) =
     [''ACG'', ''CGT'', ''GTT'', ''TTG'', ''TGC'']
   \<and> fst (projr (extend (fst (make_graph [''ACGTT'', ''CGTTG'', ''GTTGC'', ''TTGCA''] 4))
        ''ACG'' ''ACG'' {''ACG''})) = ''ACGTTGCA''
   \<and> walk_contigs (fst (make_graph [''ACGTT'', ''CGTTG'', ''GTTGC'', ''TTGCA''] 4)) =
     Inr [''ACGTTGCA'']
   \<and> windows ''ACGTTGCA'' 3 = [''ACG'', ''CGT'', ''GTT'', ''TTG'', ''TGC'', ''GCA'']
   \<and> distinct (windows ''ACGTTGCA'' 3)"
proof -
  have w: "windows ''ACGTTGCA'' 3 = [''ACG'', ''CGT'', ''GTT'', ''TTG'', ''TGC'', ''GCA'']"
    by (simp add: windows_def py_range_def py_slice_def py_index_def upt_rec Let_def)
  have d: "distinct (windows ''ACGTTGCA'' 3)"
    by (simp add: w)
  have e: "fst (projr (extend [(''ACG'', [(''CGT'', 1)]), (''CGT'', [(''GTT'', 2)]),
      (''GTT'', [(''TTG'', 2)]), (''TTG'', [(''TGC'', 2)]), (''TGC'', [(''GCA'', 1)])]
        ''ACG'' ''ACG'' {''ACG''})) = ''ACGTTGCA''"
    by (simp add: extend.simps select_next_def length_cap_def Let_def)
  have k: "map fst [(''ACG'', [(''CGT'', 1::nat)]), (''CGT'', [(''GTT'', 2)]),
      (''GTT'', [(''TTG'', 2)]), (''TTG'', [(''TGC'', 2)]), (''TGC'', [(''GCA'', 1)])] =
      [''ACG'', ''CGT'', ''GTT'', ''TTG'', ''TGC'']"
    by simp
  show ?thesis
    unfolding example_graph by (intro conjI k e example_walk w d)
qed

subsection \<open>N50\<close>

lemma n50_loop_first:
  "Ls \<noteq> [] \<Longrightarrow> half \<le> real (acc + sum_list Ls) \<Longrightarrow>
   \<exists>i<length Ls. n50_loop half acc Ls = Ls ! i
     \<and> half \<le> real (acc + sum_list (take (Suc i) Ls))
     \<and> (\<forall>j<i. real (acc + sum_list (take (Suc j) Ls)) < half)"
proof (induction Ls arbitrary: acc)
  case Nil
  then show ?case by simp
next
  case (Cons L Ls)
  show ?case
  proof (cases "half \<le> real (acc + L)")
    case True
    then have "n50_loop half acc (L # Ls) = (L # Ls) ! 0
        \<and> half \<le> real (acc + sum_list (take (Suc 0) (L # Ls)))
        \<and> (\<forall>j<0. real (acc + sum_list (take (Suc j) (L # Ls))) < half)"
      by simp
    then show ?thesis by blast
  next
    case False
    with Cons.prems have ne: "Ls \<noteq> []" by auto
    from Cons.prems have "half \<le> real ((acc + L) + sum_list Ls)"
      by (simp add: add.assoc)
    from Cons.IH [OF ne this] obtain i where i: "i < length Ls"
      "n50_loop half (acc + L) Ls = Ls ! i"
      "half \<le> real ((acc + L) + sum_list (take (Suc i) Ls))"
      "\<forall>j<i. real ((acc + L) + sum_list (take (Suc j) Ls)) < half"
      by blast
    have "\<forall>j<Suc i. real (acc + sum_list (take (Suc j) (L # Ls))) < half"
    proof (intro allI impI)
      fix j assume "j < Suc i"
      show "real (acc + sum_list (take (Suc j) (L # Ls))) < half"
      proof (cases j)
        case 0
        with False show ?thesis by simp
      next
        case (Suc j')
        with \<open>j < Suc i\<close> i(4) show ?thesis by (simp add: add.assoc)
      qed
    qed
    moreover have "n50_loop half acc (L # Ls) = (L # Ls) ! Suc i"
      using False i(2) by simp
    moreover have "half \<le> real (acc + sum_list (take (Suc (Suc i)) (L # Ls)))"
      using i(3) by (simp add: add.assoc)
    ultimately show ?thesis using i(1) by (intro exI [of _ "Suc i"]) simp
  qed
qed

lemma half_le_iff: "real t / 2 \<le> real x \<longleftrightarrow> t \<le> 2 * x"
proof -
  have "real t / 2 \<le> real x \<longleftrightarrow> real t \<le> real (2 * x)" by (simp add: field_simps)
  then show ?thesis by (simp only: of_nat_le_iff)
qed

lemma lt_half_iff: "real x < real t / 2 \<longleftrightarrow> 2 * x < t"
proof -
  have "real x < real t / 2 \<longleftrightarrow> real (2 * x) < real t" by (simp add: field_simps)
  then show ?thesis by (simp only: of_nat_less_iff)
qed

text \<open>
  C2. For a non-empty sequence of contigs the lengths are sorted in descending order, and
  N50 is the length at the first position where twice the cumulative sum reaches the total
  length; contigs of lengths 50, 40, 30, 20, 10 in any arrangement give 40.
\<close>

theorem n50_first_half:
  assumes "contigs \<noteq> []"
  shows "sorted (rev (sorted_lengths contigs))
     \<and> mset (sorted_lengths contigs) = mset (map length contigs)
     \<and> (\<exists>i<length (sorted_lengths contigs).
          contigs_n50 contigs = sorted_lengths contigs ! i
        \<and> sum_list (sorted_lengths contigs) \<le> 2 * sum_list (take (Suc i) (sorted_lengths contigs))
        \<and> (\<forall>j<i. 2 * sum_list (take (Suc j) (sorted_lengths contigs))
               < sum_list (sorted_lengths contigs)))
     \<and> (mset (map length contigs) = mset [50, 40, 30, 20, 10] \<longrightarrow> contigs_n50 contigs = 40)"
proof -
  let ?ls = "sorted_lengths contigs"
  have "length ?ls = length contigs" by (simp add: sorted_lengths_def)
  with assms have ne: "?ls \<noteq> []" by auto
  have "real (sum_list ?ls) / 2 \<le> real (0 + sum_list ?ls)" by simp
  from n50_loop_first [OF ne this] obtain i where i: "i < length ?ls"
    "n50_loop (real (sum_list ?ls) / 2) 0 ?ls = ?ls ! i"
    "real (sum_list ?ls) / 2 \<le> real (0 + sum_list (take (Suc i) ?ls))"
    "\<forall>j<i. real (0 + sum_list (take (Suc j) ?ls)) < real (sum_list ?ls) / 2"
    by blast
  have a: "sum_list ?ls \<le> 2 * sum_list (take (Suc i) ?ls)"
    using i(3) by (simp only: half_le_iff add_0)
  have b: "\<forall>j<i. 2 * sum_list (take (Suc j) ?ls) < sum_list ?ls"
    using i(4) by (simp only: lt_half_iff add_0)
  have c: "contigs_n50 contigs = ?ls ! i"
    using i(2) ne by (simp add: contigs_n50_def Let_def)
  have "\<exists>i<length ?ls. contigs_n50 contigs = ?ls ! i
        \<and> sum_list ?ls \<le> 2 * sum_list (take (Suc i) ?ls)
        \<and> (\<forall>j<i. 2 * sum_list (take (Suc j) ?ls) < sum_list ?ls)"
    using i(1) a b c by blast
  moreover have "contigs_n50 contigs = 40"
    if "mset (map length contigs) = mset [50, 40, 30, 20, 10]"
  proof -
    have "mset (sort [50, 40, 30, 20, 10::nat]) = mset (map length contigs)"
      using that by (simp only: mset_sort)
    then have "sort (map length contigs) = sort [50, 40, 30, 20, 10]"
      by (rule properties_for_sort) (rule sorted_sort)
    then have "?ls = [50, 40, 30, 20, 10]" by (simp add: sorted_lengths_def)
    then show ?thesis by (simp add: contigs_n50_def)
  qed
  ultimately show ?thesis by (simp add: sorted_lengths_def)
qed

theorem n50_first_half_witness:
  "[replicate 30 (CHR ''A''), replicate 50 (CHR ''C''), replicate 10 (CHR ''G''),
    replicate 40 (CHR ''T''), replicate 20 (CHR ''A'')] \<noteq> []
   \<and> contigs_n50 [replicate 30 (CHR ''A''), replicate 50 (CHR ''C''), replicate 10 (CHR ''G''),
        replicate 40 (CHR ''T''), replicate 20 (CHR ''A'')] = 40"
  using n50_first_half [of "[replicate 30 (CHR ''A''), replicate 50 (CHR ''C''),
    replicate 10 (CHR ''G''), replicate 40 (CHR ''T''), replicate 20 (CHR ''A'')]"]
  by simp

subsection \<open>Empty input\<close>

text \<open>
  C8. With no reads, or with every read shorter than \<open>k\<close>, the assembly returns a result
  with zero contigs and N50 0 instead of failing.
\<close>

theorem empty_input_result:
  "reads = [] \<or> (\<forall>r\<in>set reads. int (length r) < k) \<Longrightarrow> run_assembly reads k = Inr (0, 0)"
proof -
  assume "reads = [] \<or> (\<forall>r\<in>set reads. int (length r) < k)"
  then have "\<forall>r\<in>set reads. int (length r) < k" by auto
  then have "make_graph reads k = ([], [], [])"
    unfolding make_graph_def by (rule make_graph_all_short)
  then show ?thesis by (simp add: empty_graph_result)
qed

theorem empty_input_result_witness:
  "run_assembly [] 4 = Inr (0, 0) \<and> run_assembly [''ACG'', ''TT''] 4 = Inr (0, 0)"
  using empty_input_result [of "[]" 4] empty_input_result [of "[''ACG'', ''TT'']" 4]
  by simp

subsection \<open>Edge selection\<close>

lemma max_item_first:
  "\<exists>pre post. best # ys = pre @ max_item best ys # post
     \<and> (\<forall>p\<in>set pre. snd p < snd (max_item best ys))
     \<and> (\<forall>p\<in>set post. snd p \<le> snd (max_item best ys))"
proof (induction ys arbitrary: best)
  case Nil
  have "[best] = [] @ max_item best [] # []
     \<and> (\<forall>p\<in>set []. snd p < snd (max_item best []))
     \<and> (\<forall>p\<in>set []. snd p \<le> snd (max_item best []))" by simp
  then show ?case by blast
next
  case (Cons y ys)
  define b where "b = (if snd best < snd y then y else best)"
  define r where "r = max_item b ys"
  from Cons.IH [of b] obtain pre post where pp: "b # ys = pre @ r # post"
    "\<forall>p\<in>set pre. snd p < snd r" "\<forall>p\<in>set post. snd p \<le> snd r"
    unfolding r_def by blast
  have r: "max_item best (y # ys) = r" by (simp add: r_def b_def)
  show ?case
  proof (cases "snd best < snd y")
    case True
    then have "b = y" by (simp add: b_def)
    with pp(1) have eq: "y # ys = pre @ r # post" by simp
    then have "snd y \<le> snd r"
      using pp(2) by (cases pre) auto
    with True have "snd best < snd r" by simp
    with pp(2) have "\<forall>p\<in>set (best # pre). snd p < snd r" by simp
    moreover have "best # y # ys = (best # pre) @ r # post" using eq by simp
    ultimately show ?thesis unfolding r using pp(3) by blast
  next
    case False
    then have "b = best" by (simp add: b_def)
    with pp(1) have eq: "best # ys = pre @ r # post" by simp
    show ?thesis
    proof (cases pre)
      case Nil
      with eq have rb: "r = best" and "post = ys" by simp_all
      with False pp(3) have "\<forall>p\<in>set (y # ys). snd p \<le> snd r" by auto
      moreover have "best # y # ys = [] @ r # (y # ys)" using rb by simp
      moreover have "\<forall>p\<in>set []. snd p < snd r" by simp
      ultimately show ?thesis unfolding r by blast
    next
      case (Cons p pre')
      with eq have "p = best" and ys: "ys = pre' @ r # post" by simp_all
      with pp(2) Cons False have "\<forall>q\<in>set (best # y # pre'). snd q < snd r" by auto
      moreover have "best # y # ys = (best # y # pre') @ r # post"
        using ys by simp
      ultimately show ?thesis unfolding r using pp(3) by blast
    qed
  qed
qed

lemma select_next_first:
  assumes "c \<noteq> []"
  shows "\<exists>pre n post. c = pre @ (select_next c, n) # post
     \<and> (\<forall>p\<in>set pre. snd p < n) \<and> (\<forall>p\<in>set post. snd p \<le> n)"
proof -
  from assms obtain x xs where c: "c = x # xs" by (cases c) auto
  from max_item_first [of x xs] obtain pre post where
    "x # xs = pre @ max_item x xs # post"
    "\<forall>p\<in>set pre. snd p < snd (max_item x xs)"
    "\<forall>p\<in>set post. snd p \<le> snd (max_item x xs)" by blast
  then show ?thesis unfolding c select_next_def
    by (metis list.sel(1) list.sel(3) prod.collapse)
qed

text \<open>
  C3 (as the code has it). At an extension step from a node with outgoing edges the selected
  target has the greatest multiplicity, and among the targets of greatest multiplicity it is
  the one inserted first into the node's counter: every earlier entry has a strictly smaller
  count and every later one a count that is not greater. The walk then moves to that target,
  or ends there when the target was already visited.
\<close>

theorem first_inserted_maximum:
  assumes "map_of graph cur = Some c" and "c \<noteq> []"
  shows "(\<exists>pre n post. c = pre @ (select_next c, n) # post
           \<and> (\<forall>p\<in>set pre. snd p < n) \<and> (\<forall>p\<in>set post. snd p \<le> n))
     \<and> (select_next c \<noteq> [] \<longrightarrow> select_next c \<notin> visited \<longrightarrow> \<not> length_cap < Suc (length seq) \<longrightarrow>
          extend graph cur seq visited =
          extend graph (select_next c) (seq @ [last (select_next c)]) (insert (select_next c) visited))
     \<and> (select_next c \<noteq> [] \<longrightarrow> select_next c \<in> visited \<longrightarrow>
          extend graph cur seq visited = Inr (seq @ [last (select_next c)], visited))"
  using assms select_next_first [OF assms(2)]
  by (simp add: extend.simps [of graph cur] Let_def)

theorem first_inserted_maximum_witness:
  "select_next [(''CT'', 1), (''CG'', 2), (''CA'', 2)] = ''CG''
   \<and> extend [(''AC'', [(''CT'', 1), (''CG'', 2), (''CA'', 2)])] ''AC'' ''AC'' {''AC''} =
     Inr (''ACG'', {''CG'', ''AC''})"
proof -
  have m: "map_of [(''AC'', [(''CT'', 1::nat), (''CG'', 2), (''CA'', 2)])] ''AC'' =
      Some [(''CT'', 1), (''CG'', 2), (''CA'', 2)]" by simp
  have n: "[(''CT'', 1::nat), (''CG'', 2), (''CA'', 2)] \<noteq> []" by simp
  have s: "select_next [(''CT'', 1), (''CG'', 2), (''CA'', 2)] = ''CG''"
    by (simp add: select_next_def)
  have e: "extend [(''AC'', [(''CT'', 1), (''CG'', 2), (''CA'', 2)])] ''CG'' ''ACG'' {''CG'', ''AC''} =
      Inr (''ACG'', {''CG'', ''AC''})"
    by (simp add: extend.simps)
  show ?thesis
    using first_inserted_maximum [OF m n, of "{''AC''}" "''AC''"] s e
    by (simp add: length_cap_def)
qed

text \<open>
  The tie is not broken by the lexicographically smallest target: for the reads
  \<open>ACT, ACG\<close> and \<open>k = 3\<close> the node \<open>AC\<close> has the targets \<open>CT\<close> and \<open>CG\<close>, both of
  multiplicity 1, and the walk follows \<open>CT\<close>, although \<open>CG\<close> is smaller.
\<close>

theorem lexicographic_tie_break_counterexample:
  "fst (make_graph [''ACT'', ''ACG''] 3) = [(''AC'', [(''CT'', 1), (''CG'', 1)])]
   \<and> select_next [(''CT'', 1), (''CG'', 1)] = ''CT''
   \<and> ''CG'' < ''CT''
   \<and> walk_contigs (fst (make_graph [''ACT'', ''ACG''] 3)) = Inr [''ACT'']"
proof -
  have g: "fst (make_graph [''ACT'', ''ACG''] 3) = [(''AC'', [(''CT'', 1), (''CG'', 1)])]"
    by (simp add: make_graph_def read_step_def window_step_def py_range_def py_slice_def
      py_index_def upt_rec Let_def)
  have s: "select_next [(''CT'', 1), (''CG'', 1)] = ''CT''"
    by (simp add: select_next_def)
  have l: "''CG'' < ''CT''" by simp
  have w: "walk_contigs [(''AC'', [(''CT'', 1), (''CG'', 1)])] = Inr [''ACT'']"
    by (simp add: walk_contigs_def extend.simps select_next_def length_cap_def Let_def)
  show ?thesis unfolding g by (intro conjI refl s l w)
qed

subsection \<open>Edge multiplicities\<close>

lemma map_of_incr:
  "map_of (incr b c) y =
     (if y = b then Some (case map_of c b of None \<Rightarrow> 1 | Some n \<Rightarrow> n + 1) else map_of c y)"
  by (induction c) auto

lemma map_of_add_edge:
  "map_of (add_edge a b g) x =
     (if x = a then Some (incr b (case map_of g a of None \<Rightarrow> [] | Some c \<Rightarrow> c))
      else map_of g x)"
  by (induction g) auto

lemma multiplicity_add_edge:
  "multiplicity (add_edge a b g) x y =
     multiplicity g x y + (if x = a \<and> y = b then 1 else 0)"
  by (auto simp: multiplicity_def map_of_add_edge map_of_incr split: option.splits)

lemma fst_window_step:
  "fst (window_step r k s i) =
     (if CHR ''N'' \<in> set (py_slice r i (i + k)) then fst s
      else add_edge (butlast (py_slice r i (i + k))) (tl (py_slice r i (i + k))) (fst s))"
  by (simp add: window_step_def Let_def split: prod.split)

lemma multiplicity_window_loop:
  "multiplicity (fst (foldl (window_step r k) s js)) a b =
     multiplicity (fst s) a b +
     length (filter (\<lambda>f. CHR ''N'' \<notin> set f \<and> butlast f = a \<and> tl f = b)
       (map (\<lambda>i. py_slice r i (i + k)) js))"
  by (induction js arbitrary: s) (simp_all add: fst_window_step multiplicity_add_edge)

lemma multiplicity_read_step:
  "multiplicity (fst (read_step k s r)) a b =
     multiplicity (fst s) a b +
     length (filter (\<lambda>f. CHR ''N'' \<notin> set f \<and> butlast f = a \<and> tl f = b) (windows r k))"
  by (simp add: read_step_def windows_def multiplicity_window_loop)

lemma multiplicity_read_loop:
  "multiplicity (fst (foldl (read_step k) s reads)) a b =
     multiplicity (fst s) a b +
     (\<Sum>r\<leftarrow>reads. length (filter (\<lambda>f. CHR ''N'' \<notin> set f \<and> butlast f = a \<and> tl f = b)
        (windows r k)))"
  by (induction reads arbitrary: s) (simp_all add: multiplicity_read_step)

lemma multiplicity_make_graph:
  "multiplicity (fst (make_graph reads k)) a b =
     (\<Sum>r\<leftarrow>reads. length (filter (\<lambda>f. CHR ''N'' \<notin> set f \<and> butlast f = a \<and> tl f = b)
        (windows r k)))"
proof -
  have "multiplicity [] a b = 0" by (simp add: multiplicity_def)
  then show ?thesis
    unfolding make_graph_def using multiplicity_read_loop [of k "([], [], [])" reads a b]
    by simp
qed

text \<open>
  C7 (as the code has it). The multiplicity of every edge \<open>(a, b)\<close> is the number of
  windows, over all reads, that do not contain the symbol \<open>N\<close> and have prefix \<open>a\<close> and
  suffix \<open>b\<close>: a window containing \<open>N\<close> contributes no edge, every other window of the
  same read contributes one, and construction itself cannot fail.
\<close>

theorem windows_with_N_discarded:
  "multiplicity (fst (make_graph reads k)) a b =
     (\<Sum>r\<leftarrow>reads. length (filter (\<lambda>f. CHR ''N'' \<notin> set f \<and> butlast f = a \<and> tl f = b)
        (windows r k)))"
  by (rule multiplicity_make_graph)

text \<open>
  The read \<open>ACNGTA\<close> with \<open>k = 3\<close>: the three windows touching \<open>N\<close> are dropped, the window
  \<open>GTA\<close> still gives its edge, and the assembly returns a result.
\<close>

theorem windows_with_N_discarded_witness:
  "windows ''ACNGTA'' 3 = [''ACN'', ''CNG'', ''NGT'', ''GTA'']
   \<and> multiplicity (fst (make_graph [''ACNGTA''] 3)) ''AC'' ''CN'' = 0
   \<and> multiplicity (fst (make_graph [''ACNGTA''] 3)) ''GT'' ''TA'' = 1
   \<and> run_assembly [''ACNGTA''] 3 = Inr (3, 1)"
proof -
  have g: "fst (make_graph [''ACNGTA''] 3) = [(''GT'', [(''TA'', 1)])]"
    by (simp add: make_graph_def read_step_def window_step_def py_range_def py_slice_def
      py_index_def upt_rec Let_def)
  have r: "run_assembly [''ACNGTA''] 3 = Inr (3, 1)"
    unfolding run_assembly_fst g
    by (simp add: walk_contigs_def extend.simps select_next_def length_cap_def Let_def
      contigs_n50_def sorted_lengths_def)
  have w: "windows ''ACNGTA'' 3 = [''ACN'', ''CNG'', ''NGT'', ''GTA'']"
    by (simp add: windows_def py_range_def py_slice_def py_index_def upt_rec Let_def)
  show ?thesis
    using windows_with_N_discarded [of "[''ACNGTA'']" 3 "''AC''" "''CN''"]
      windows_with_N_discarded [of "[''ACNGTA'']" 3 "''GT''" "''TA''"] r
    by (simp add: w)
qed

text \<open>
  A symbol outside \<open>{A, C, G, T}\<close> other than \<open>N\<close> does not discard its window: the read
  \<open>AXC\<close> with \<open>k = 3\<close> yields the edge from \<open>AX\<close> to \<open>XC\<close>.
\<close>

theorem non_ACGT_window_counterexample:
  "windows ''AXC'' 3 = [''AXC'']
   \<and> CHR ''X'' \<in> set ''AXC'' \<and> CHR ''X'' \<notin> {CHR ''A'', CHR ''C'', CHR ''G'', CHR ''T''}
   \<and> fst (make_graph [''AXC''] 3) = [(''AX'', [(''XC'', 1)])]
   \<and> multiplicity (fst (make_graph [''AXC''] 3)) ''AX'' ''XC'' = 1"
proof -
  have w: "windows ''AXC'' 3 = [''AXC'']"
    by (simp add: windows_def py_range_def py_slice_def py_index_def upt_rec Let_def)
  have g: "fst (make_graph [''AXC''] 3) = [(''AX'', [(''XC'', 1)])]"
    by (simp add: make_graph_def read_step_def window_step_def py_range_def py_slice_def
      py_index_def upt_rec Let_def)
  show ?thesis unfolding g w by (simp add: multiplicity_def)
qed

text \<open>
  C4 (as the code has it). Two read sequences that are permutations of each other give, for
  every \<open>k\<close>, graphs with the same multiplicity for every pair of source and target.
\<close>

theorem permuted_reads_same_multiplicities:
  assumes "mset reads = mset reads'"
  shows "multiplicity (fst (make_graph reads k)) a b =
         multiplicity (fst (make_graph reads' k)) a b"
proof -
  let ?f = "\<lambda>r. length (filter (\<lambda>f. CHR ''N'' \<notin> set f \<and> butlast f = a \<and> tl f = b)
        (windows r k))"
  have "sum_list (map ?f reads) = sum_mset (image_mset ?f (mset reads))"
    by (simp only: sum_mset_sum_list [symmetric] mset_map)
  also have "\<dots> = sum_mset (image_mset ?f (mset reads'))"
    by (simp only: assms)
  also have "\<dots> = sum_list (map ?f reads')"
    by (simp only: sum_mset_sum_list [symmetric] mset_map)
  finally show ?thesis by (simp only: multiplicity_make_graph)
qed

text \<open>
  The two orders of the reads \<open>AC, GA\<close> with \<open>k = 2\<close>.
\<close>

theorem permuted_reads_same_multiplicities_witness:
  "mset [''GA'', ''AC''] = mset [''AC'', ''GA'']
   \<and> multiplicity (fst (make_graph [''GA'', ''AC''] 2)) ''G'' ''A'' =
     multiplicity (fst (make_graph [''AC'', ''GA''] 2)) ''G'' ''A''
   \<and> multiplicity (fst (make_graph [''AC'', ''GA''] 2)) ''G'' ''A'' = 1"
proof -
  have m: "mset [''GA'', ''AC''] = mset [''AC'', ''GA'']" by (simp add: add_mset_commute)
  have g: "fst (make_graph [''AC'', ''GA''] 2) = [(''A'', [(''C'', 1)]), (''G'', [(''A'', 1)])]"
    by (simp add: make_graph_def read_step_def window_step_def py_range_def py_slice_def
      py_index_def upt_rec Let_def)
  have "multiplicity (fst (make_graph [''AC'', ''GA''] 2)) ''G'' ''A'' = 1"
    unfolding g by (simp add: multiplicity_def)
  with m permuted_reads_same_multiplicities [OF m, of 2 "''G''" "''A''"]
  show ?thesis by simp
qed

text \<open>
  The contigs do depend on the order of the reads, since seeds are taken in the insertion
  order of the keys: the reads \<open>AC, GA\<close> give the contigs \<open>AC\<close> and \<open>GA\<close>, the reads
  \<open>GA, AC\<close> give the single contig \<open>GAC\<close>. No multiplicity is tied here.
\<close>

theorem permuted_reads_contigs_counterexample:
  "mset [''GA'', ''AC''] = mset [''AC'', ''GA'']
   \<and> walk_contigs (fst (make_graph [''AC'', ''GA''] 2)) = Inr [''AC'', ''GA'']
   \<and> walk_contigs (fst (make_graph [''GA'', ''AC''] 2)) = Inr [''GAC'']
   \<and> mset [''AC'', ''GA''] \<noteq> mset [''GAC'']"
proof -
  have m: "mset [''GA'', ''AC''] = mset [''AC'', ''GA'']" by (simp add: add_mset_commute)
  have g1: "fst (make_graph [''AC'', ''GA''] 2) = [(''A'', [(''C'', 1)]), (''G'', [(''A'', 1)])]"
    by (simp add: make_graph_def read_step_def window_step_def py_range_def py_slice_def
      py_index_def upt_rec Let_def)
  have g2: "fst (make_graph [''GA'', ''AC''] 2) = [(''G'', [(''A'', 1)]), (''A'', [(''C'', 1)])]"
    by (simp add: make_graph_def read_step_def window_step_def py_range_def py_slice_def
      py_index_def upt_rec Let_def)
  have w1: "walk_contigs [(''A'', [(''C'', 1)]), (''G'', [(''A'', 1)])] = Inr [''AC'', ''GA'']"
    by (simp add: walk_contigs_def extend.simps select_next_def length_cap_def Let_def)
  have w2: "walk_contigs [(''G'', [(''A'', 1)]), (''A'', [(''C'', 1)])] = Inr [''GAC'']"
    by (simp add: walk_contigs_def extend.simps select_next_def length_cap_def Let_def)
  have d: "mset [''AC'', ''GA''] \<noteq> mset [''GAC'']" by simp
  show ?thesis unfolding g1 g2 by (intro conjI m w1 w2 d)
qed

subsection \<open>The walk from one seed\<close>

lemma select_next_in:
  assumes "c \<noteq> []"
  shows "select_next c \<in> fst ` set c"
proof -
  from select_next_first [OF assms] obtain pre n post where
    "c = pre @ (select_next c, n) # post" by blast
  then have "(select_next c, n) \<in> set c" by (metis in_set_conv_decomp)
  then show ?thesis by force
qed

lemma set_nodes:
  "set (nodes g) = (\<Union>(a, c)\<in>set g. insert a (fst ` set c))"
  by (auto simp: nodes_def)

lemma select_next_node:
  assumes "map_of g cur = Some c" and "c \<noteq> []"
  shows "select_next c \<in> set (nodes g)"
proof -
  from assms(1) have "(cur, c) \<in> set g" by (rule map_of_SomeD)
  with select_next_in [OF assms(2)] show ?thesis
    unfolding set_nodes by blast
qed

lemma extend_cases:
  assumes "extend g cur seq vis = Inr (seq', vis')"
  obtains
    (stop) "seq' = seq" and "vis' = vis"
      and "map_of g cur = None \<or> map_of g cur = Some []"
  | (revisit) c where "map_of g cur = Some c" and "c \<noteq> []" and "select_next c \<noteq> []"
      and "select_next c \<in> vis" and "seq' = seq @ [last (select_next c)]" and "vis' = vis"
  | (cap) c where "map_of g cur = Some c" and "c \<noteq> []" and "select_next c \<noteq> []"
      and "select_next c \<notin> vis" and "length_cap < Suc (length seq)"
      and "seq' = seq @ [last (select_next c)]" and "vis' = insert (select_next c) vis"
  | (step) c where "map_of g cur = Some c" and "c \<noteq> []" and "select_next c \<noteq> []"
      and "select_next c \<notin> vis" and "\<not> length_cap < Suc (length seq)"
      and "extend g (select_next c) (seq @ [last (select_next c)]) (insert (select_next c) vis)
           = Inr (seq', vis')"
  using assms
  by (subst (asm) extend.simps) (auto simp: Let_def split: option.splits if_splits)

lemma extend_result:
  "extend g cur seq vis = Inr (seq', vis') \<Longrightarrow>
     vis \<subseteq> vis' \<and> finite (vis' - vis) \<and> vis' - vis \<subseteq> set (nodes g) \<and> [] \<notin> vis' - vis
     \<and> length seq + card (vis' - vis) \<le> length seq'
     \<and> length seq' \<le> length seq + card (vis' - vis) + 1
     \<and> length seq' \<le> max (length seq) length_cap + 1
     \<and> (\<forall>c. map_of g cur = Some c \<longrightarrow> c \<noteq> [] \<longrightarrow> length seq < length seq')"
proof (induction g cur seq vis rule: extend.induct)
  case (1 g cur seq vis)
  from "1.prems" show ?case
  proof (cases rule: extend_cases)
    case stop
    then show ?thesis by auto
  next
    case (revisit c)
    then show ?thesis by auto
  next
    case (cap c)
    have "vis' - vis = {select_next c}" using cap(4,7) by auto
    with cap select_next_node [OF cap(1,2)] show ?thesis by auto
  next
    case (step c)
    define n where "n = select_next c"
    define vis1 where "vis1 = insert n vis"
    have nc: "\<not> length_cap < length (seq @ [last n])" using step(5) by simp
    have ih: "vis1 \<subseteq> vis' \<and> finite (vis' - vis1) \<and> vis' - vis1 \<subseteq> set (nodes g)
       \<and> [] \<notin> vis' - vis1
       \<and> length (seq @ [last n]) + card (vis' - vis1) \<le> length seq'
       \<and> length seq' \<le> length (seq @ [last n]) + card (vis' - vis1) + 1
       \<and> length seq' \<le> max (length (seq @ [last n])) length_cap + 1"
    proof -
      have e: "extend g n (seq @ [last n]) vis1 = Inr (seq', vis')"
        using step(6) by (simp add: n_def vis1_def)
      from "1.IH" [OF step(1,2) n_def step(3) [folded n_def] refl step(4) [folded n_def]
          vis1_def nc e]
      show ?thesis by blast
    qed
    have d: "vis' - vis = insert n (vis' - vis1)" and m: "n \<notin> vis' - vis1"
      using ih step(4) by (auto simp: vis1_def n_def)
    have cd: "card (vis' - vis) = Suc (card (vis' - vis1))"
      unfolding d using ih m by simp
    have nn: "n \<in> set (nodes g)" "n \<noteq> []"
      using select_next_node [OF step(1,2)] step(3) by (simp_all add: n_def)
    have "vis \<subseteq> vis'" using ih by (auto simp: vis1_def)
    moreover have "finite (vis' - vis)" unfolding d using ih by simp
    moreover have "vis' - vis \<subseteq> set (nodes g)" unfolding d using ih nn by simp
    moreover have "[] \<notin> vis' - vis" unfolding d using ih nn by simp
    moreover have "length seq + card (vis' - vis) \<le> length seq'"
      unfolding cd using ih by simp
    moreover have "length seq' \<le> length seq + card (vis' - vis) + 1"
      unfolding cd using ih by simp
    moreover have "length seq' \<le> max (length seq) length_cap + 1"
      using ih nc by simp
    moreover have "length seq < length seq'"
      using ih by simp
    ultimately show ?thesis by blast
  qed
qed

lemma extend_returns:
  "\<forall>c\<in>snd ` set g. [] \<notin> fst ` set c \<Longrightarrow> \<exists>res. extend g cur seq vis = Inr res"
proof (induction g cur seq vis rule: extend.induct)
  case (1 g cur seq vis)
  show ?case
  proof (cases "map_of g cur")
    case None
    then show ?thesis by (simp add: extend.simps)
  next
    case (Some c)
    show ?thesis
    proof (cases "c = []")
      case True
      with Some show ?thesis by (simp add: extend.simps)
    next
      case False
      from Some have "(cur, c) \<in> set g" by (rule map_of_SomeD)
      then have "c \<in> snd ` set g" by force
      with "1.prems" have "[] \<notin> fst ` set c" by blast
      with select_next_in [OF False] have ne: "select_next c \<noteq> []" by metis
      show ?thesis
      proof (cases "select_next c \<in> vis \<or> length_cap < Suc (length seq)")
        case True
        with Some False ne show ?thesis by (auto simp: extend.simps Let_def)
      next
        case False': False
        then have "\<not> length_cap < length (seq @ [last (select_next c)])" by simp
        from "1.IH" [OF Some False refl ne refl _ refl this "1.prems"] False'
        obtain res where "extend g (select_next c) (seq @ [last (select_next c)])
            (insert (select_next c) vis) = Inr res" by blast
        with Some False ne False' show ?thesis
          by (subst extend.simps) (simp add: Let_def)
      qed
    qed
  qed
qed

lemma extend_path:
  "extend g cur seq vis = Inr (seq', vis') \<Longrightarrow>
     \<exists>path. successively (follows g) (cur # path) \<and> seq' = seq @ map last path
       \<and> vis' = vis \<union> set path \<and> distinct (butlast path) \<and> set (butlast path) \<inter> vis = {}"
proof (induction g cur seq vis rule: extend.induct)
  case (1 g cur seq vis)
  from "1.prems" show ?case
  proof (cases rule: extend_cases)
    case stop
    then have "successively (follows g) (cur # []) \<and> seq' = seq @ map last []
       \<and> vis' = vis \<union> set [] \<and> distinct (butlast []) \<and> set (butlast []) \<inter> vis = {}"
      by simp
    then show ?thesis by blast
  next
    case (revisit c)
    define n where "n = select_next c"
    have "follows g cur n" using revisit(1,2) by (auto simp: follows_def n_def)
    with revisit have "successively (follows g) (cur # [n]) \<and> seq' = seq @ map last [n]
       \<and> vis' = vis \<union> set [n] \<and> distinct (butlast [n]) \<and> set (butlast [n]) \<inter> vis = {}"
      by (auto simp: n_def)
    then show ?thesis by blast
  next
    case (cap c)
    define n where "n = select_next c"
    have "follows g cur n" using cap(1,2) by (auto simp: follows_def n_def)
    with cap have "successively (follows g) (cur # [n]) \<and> seq' = seq @ map last [n]
       \<and> vis' = vis \<union> set [n] \<and> distinct (butlast [n]) \<and> set (butlast [n]) \<inter> vis = {}"
      by (auto simp: n_def)
    then show ?thesis by blast
  next
    case (step c)
    define n where "n = select_next c"
    define vis1 where "vis1 = insert n vis"
    have nc: "\<not> length_cap < length (seq @ [last n])" using step(5) by simp
    have e: "extend g n (seq @ [last n]) vis1 = Inr (seq', vis')"
      using step(6) by (simp add: n_def vis1_def)
    from "1.IH" [OF step(1,2) n_def step(3) [folded n_def] refl step(4) [folded n_def]
        vis1_def nc e]
    obtain path where p: "successively (follows g) (n # path)"
      "seq' = (seq @ [last n]) @ map last path" "vis' = vis1 \<union> set path"
      "distinct (butlast path)" "set (butlast path) \<inter> vis1 = {}"
      by blast
    have f: "follows g cur n" using step(1,2) by (auto simp: follows_def n_def)
    have nv: "n \<notin> vis" using step(4) by (simp add: n_def)
    have a: "successively (follows g) (cur # n # path)" using f p(1) by simp
    have b: "seq' = seq @ map last (n # path)" using p(2) by simp
    have c: "vis' = vis \<union> set (n # path)" using p(3) by (auto simp: vis1_def)
    have d: "distinct (butlast (n # path)) \<and> set (butlast (n # path)) \<inter> vis = {}"
      using p(4,5) nv by (cases path) (auto simp: vis1_def)
    from a b c d show ?thesis by blast
  qed
qed

lemma seeded_path:
  assumes "extend g s s (insert s v) = Inr (c, v')"
  shows "\<exists>path. c = s @ map last path \<and> successively (follows g) (s # path)
     \<and> distinct (s # butlast path)"
proof -
  from extend_path [OF assms] obtain path where
    "successively (follows g) (s # path)" "c = s @ map last path"
    "distinct (butlast path)" "set (butlast path) \<inter> insert s v = {}" by blast
  then have "c = s @ map last path \<and> successively (follows g) (s # path)
     \<and> distinct (s # butlast path)" by auto
  then show ?thesis by blast
qed

subsection \<open>The loop over the seeds\<close>

lemma walk_starts_contigs:
  "walk_starts g starts cs vis = Inr cs' \<Longrightarrow> c \<in> set cs' \<Longrightarrow>
     c \<in> set cs \<or> (\<exists>s\<in>set starts. \<exists>v v'. s \<notin> v \<and> extend g s s (insert s v) = Inr (c, v'))"
proof (induction starts arbitrary: cs vis)
  case Nil
  then show ?case by simp
next
  case (Cons s starts)
  show ?case
  proof (cases "s \<in> vis")
    case True
    with Cons.prems have "walk_starts g starts cs vis = Inr cs'" by simp
    from Cons.IH [OF this Cons.prems(2)] show ?thesis by auto
  next
    case False
    with Cons.prems(1) obtain seq v' where
      e: "extend g s s (insert s vis) = Inr (seq, v')"
      and w: "walk_starts g starts (cs @ [seq]) v' = Inr cs'"
      by (auto split: sum.splits)
    from Cons.IH [OF w Cons.prems(2)] show ?thesis
    proof
      assume "c \<in> set (cs @ [seq])"
      then show ?thesis using e False by auto
    next
      assume "\<exists>s\<in>set starts. \<exists>v v'. s \<notin> v \<and> extend g s s (insert s v) = Inr (c, v')"
      then show ?thesis by auto
    qed
  qed
qed

lemma walk_starts_returns:
  "\<forall>c\<in>snd ` set g. [] \<notin> fst ` set c \<Longrightarrow> \<exists>cs'. walk_starts g starts cs vis = Inr cs'"
proof (induction starts arbitrary: cs vis)
  case Nil
  then show ?case by simp
next
  case (Cons s starts)
  show ?case
  proof (cases "s \<in> vis")
    case True
    with Cons.IH [OF Cons.prems] show ?thesis by simp
  next
    case False
    from extend_returns [OF Cons.prems] obtain seq v' where
      "extend g s s (insert s vis) = Inr (seq, v')" by (metis surj_pair)
    with False Cons.IH [OF Cons.prems, of "cs @ [seq]" v'] show ?thesis by simp
  qed
qed

lemma walk_contigs_seeded:
  assumes "walk_contigs g = Inr cs" and "c \<in> set cs"
  shows "\<exists>s\<in>set (map fst g). \<exists>v v'. s \<notin> v \<and> extend g s s (insert s v) = Inr (c, v')"
  using walk_starts_contigs [OF assms(1) [unfolded walk_contigs_def] assms(2)] by simp

lemma seeded_length_nodes:
  assumes "s \<in> set (map fst g)" and "extend g s s (insert s v) = Inr (c, v')"
  shows "length c \<le> length s + card (set (nodes g))"
proof -
  from extend_result [OF assms(2)] have
    f: "finite (v' - insert s v)" and sub: "v' - insert s v \<subseteq> set (nodes g)"
    and len: "length c \<le> length s + card (v' - insert s v) + 1" by blast+
  have sn: "s \<in> set (nodes g)" using assms(1) unfolding set_nodes by auto
  have "v' - insert s v \<subseteq> set (nodes g) - {s}" using sub by auto
  then have "card (v' - insert s v) \<le> card (set (nodes g) - {s})"
    by (intro card_mono) auto
  also have "\<dots> = card (set (nodes g)) - 1" using sn by simp
  finally have "card (v' - insert s v) + 1 \<le> card (set (nodes g))"
    using sn card_gt_0_iff [of "set (nodes g)"] by fastforce
  with len show ?thesis by linarith
qed

subsection \<open>Invariants of graph construction\<close>

lemma incr_not_Nil: "incr b c \<noteq> []"
  by (cases c) (auto split: if_splits)

lemma list_all_incr:
  "list_all (\<lambda>(b, n). Q b) c \<Longrightarrow> Q b \<Longrightarrow> list_all (\<lambda>(b, n). Q b) (incr b c)"
  by (induction c) auto

lemma edges_ok_add_edge:
  "edges_ok P g \<Longrightarrow> P a b \<Longrightarrow> edges_ok P (add_edge a b g)"
  by (induction g) (auto simp: edges_ok_def incr_not_Nil list_all_incr)

lemma edges_ok_window_loop:
  "edges_ok P (fst s) \<Longrightarrow>
   \<forall>f\<in>set (map (\<lambda>i. py_slice r i (i + k)) js). CHR ''N'' \<notin> set f \<longrightarrow> P (butlast f) (tl f) \<Longrightarrow>
   edges_ok P (fst (foldl (window_step r k) s js))"
  by (induction js arbitrary: s) (simp_all add: fst_window_step edges_ok_add_edge)

lemma edges_ok_read_step:
  "edges_ok P (fst s) \<Longrightarrow>
   \<forall>f\<in>set (windows r k). CHR ''N'' \<notin> set f \<longrightarrow> P (butlast f) (tl f) \<Longrightarrow>
   edges_ok P (fst (read_step k s r))"
  unfolding read_step_def windows_def
  by (cases "int (length r) < k") (simp_all add: edges_ok_window_loop del: set_map)

lemma edges_ok_read_loop:
  "edges_ok P (fst s) \<Longrightarrow>
   \<forall>r\<in>set reads. \<forall>f\<in>set (windows r k). CHR ''N'' \<notin> set f \<longrightarrow> P (butlast f) (tl f) \<Longrightarrow>
   edges_ok P (fst (foldl (read_step k) s reads))"
  by (induction reads arbitrary: s) (simp_all add: edges_ok_read_step)

lemma edges_ok_make_graph:
  "\<forall>r\<in>set reads. \<forall>f\<in>set (windows r k). CHR ''N'' \<notin> set f \<longrightarrow> P (butlast f) (tl f) \<Longrightarrow>
   edges_ok P (fst (make_graph reads k))"
  unfolding make_graph_def by (rule edges_ok_read_loop) (simp_all add: edges_ok_def)

lemma length_window:
  assumes "0 \<le> k" and "f \<in> set (windows r k)"
  shows "length f = nat k"
proof -
  from assms(2) obtain i where i: "i \<in> set (py_range (int (length r) - k + 1))"
    and f: "f = py_slice r i (i + k)" and "\<not> int (length r) < k"
    by (auto simp: windows_def split: if_splits)
  from i have "0 \<le> i" "i + k \<le> int (length r)" by (auto simp: py_range_def)
  with assms(1) show ?thesis
    unfolding f by (simp add: py_slice_def py_index_def Let_def min_def) linarith
qed

lemma make_graph_node_lengths:
  assumes "0 \<le> k"
  shows "edges_ok (\<lambda>a b. length a = nat k - 1 \<and> length b = nat k - 1) (fst (make_graph reads k))"
  by (rule edges_ok_make_graph) (auto simp: length_window [OF assms])

lemma make_graph_targets:
  assumes "2 \<le> k"
  shows "edges_ok (\<lambda>a b. b \<noteq> []) (fst (make_graph reads k))"
proof (rule edges_ok_make_graph, intro ballI impI)
  fix r f assume "f \<in> set (windows r k)"
  with assms have "length f = nat k" by (intro length_window) auto
  with assms have "length (tl f) \<noteq> 0" by simp
  then show "tl f \<noteq> []" by (simp del: length_tl)
qed

lemma edges_ok_targets:
  assumes "edges_ok (\<lambda>a b. b \<noteq> []) g"
  shows "\<forall>c\<in>snd ` set g. [] \<notin> fst ` set c"
  using assms by (fastforce simp: edges_ok_def list_all_iff)

lemma cyclic_graph:
  "fst (make_graph [''ACACA''] 3) = [(''AC'', [(''CA'', 2)]), (''CA'', [(''AC'', 1)])]"
  by (simp add: make_graph_def read_step_def window_step_def py_range_def py_slice_def
      py_index_def upt_rec Let_def)

subsection \<open>Termination and the cycle guard\<close>

text \<open>
  C5 (as the code has it). The traversal terminates on every graph: \<open>extend\<close> is defined
  with a termination proof and without fuel. A walk that reaches an already visited node
  appends its last symbol and ends there, with the visited set unchanged. A contig is its
  seed followed by the last symbols of the nodes of a path in which each node is the target
  selected at its predecessor; the seed and all nodes of the path except possibly the last
  are pairwise distinct and were unvisited before, so no edge is followed out of the same
  node twice, and a contig follows at most as many edges as the graph has nodes. On every
  graph whose targets are all non-empty, in particular on every graph built with
  \<open>k \<ge> 2\<close>, the traversal returns its contigs.
\<close>

theorem cycle_guard_distinct_nodes:
  "((\<forall>c\<in>snd ` set g. [] \<notin> fst ` set c) \<longrightarrow> (\<exists>cs. walk_contigs g = Inr cs))
   \<and> (2 \<le> k \<longrightarrow> (\<exists>cs. walk_contigs (fst (make_graph reads k)) = Inr cs))
   \<and> (walk_contigs g = Inr cs \<longrightarrow>
        (\<forall>c\<in>set cs. \<exists>s\<in>set (map fst g). \<exists>path.
           c = s @ map last path \<and> successively (follows g) (s # path)
           \<and> distinct (s # butlast path)
           \<and> length c \<le> length s + card (set (nodes g))))
   \<and> (extend g cur seq vis = Inr (seq', vis') \<longrightarrow>
        (\<exists>path. successively (follows g) (cur # path) \<and> seq' = seq @ map last path
           \<and> vis' = vis \<union> set path \<and> distinct (butlast path)
           \<and> set (butlast path) \<inter> vis = {}))
   \<and> (map_of g cur = Some cnt \<longrightarrow> cnt \<noteq> [] \<longrightarrow> select_next cnt \<noteq> [] \<longrightarrow>
        select_next cnt \<in> vis \<longrightarrow>
        extend g cur seq vis = Inr (seq @ [last (select_next cnt)], vis))"
proof (intro conjI impI)
  assume "\<forall>c\<in>snd ` set g. [] \<notin> fst ` set c"
  then show "\<exists>cs. walk_contigs g = Inr cs"
    unfolding walk_contigs_def by (rule walk_starts_returns)
next
  assume "2 \<le> k"
  then have "edges_ok (\<lambda>a b. b \<noteq> []) (fst (make_graph reads k))"
    by (rule make_graph_targets)
  then have "\<forall>c\<in>snd ` set (fst (make_graph reads k)). [] \<notin> fst ` set c"
    by (rule edges_ok_targets)
  then show "\<exists>cs. walk_contigs (fst (make_graph reads k)) = Inr cs"
    unfolding walk_contigs_def by (rule walk_starts_returns)
next
  assume w: "walk_contigs g = Inr cs"
  show "\<forall>c\<in>set cs. \<exists>s\<in>set (map fst g). \<exists>path.
           c = s @ map last path \<and> successively (follows g) (s # path)
           \<and> distinct (s # butlast path)
           \<and> length c \<le> length s + card (set (nodes g))"
  proof
    fix c assume "c \<in> set cs"
    from walk_contigs_seeded [OF w this] obtain s v v' where
      s: "s \<in> set (map fst g)" and e: "extend g s s (insert s v) = Inr (c, v')" by blast
    from seeded_path [OF e] obtain path where
      p: "c = s @ map last path" "successively (follows g) (s # path)"
        "distinct (s # butlast path)" by blast
    from seeded_length_nodes [OF s e] have "length c \<le> length s + card (set (nodes g))" .
    with s p show "\<exists>s\<in>set (map fst g). \<exists>path.
           c = s @ map last path \<and> successively (follows g) (s # path)
           \<and> distinct (s # butlast path)
           \<and> length c \<le> length s + card (set (nodes g))" by blast
  qed
next
  assume "extend g cur seq vis = Inr (seq', vis')"
  then show "\<exists>path. successively (follows g) (cur # path) \<and> seq' = seq @ map last path
           \<and> vis' = vis \<union> set path \<and> distinct (butlast path)
           \<and> set (butlast path) \<inter> vis = {}"
    by (rule extend_path)
next
  assume "map_of g cur = Some cnt" "cnt \<noteq> []" "select_next cnt \<noteq> []" "select_next cnt \<in> vis"
  then show "extend g cur seq vis = Inr (seq @ [last (select_next cnt)], vis)"
    by (subst extend.simps) (simp add: Let_def)
qed

text \<open>
  The read \<open>ACACA\<close> with \<open>k = 3\<close> gives the cycle between \<open>AC\<close> and \<open>CA\<close>; the
  walk returns to \<open>AC\<close> and stops with the contig \<open>ACAC\<close>. A key with an empty counter
  is no obstacle.
\<close>

theorem cycle_guard_distinct_nodes_witness:
  "fst (make_graph [''ACACA''] 3) = [(''AC'', [(''CA'', 2)]), (''CA'', [(''AC'', 1)])]
   \<and> walk_contigs [(''AC'', [(''CA'', 2)]), (''CA'', [(''AC'', 1)])] = Inr [''ACAC'']
   \<and> (\<exists>cs. walk_contigs (fst (make_graph [''ACACA''] 3)) = Inr cs)
   \<and> (\<exists>cs. walk_contigs [(''AC'', [])] = Inr cs)
   \<and> (\<exists>path. ''ACAC'' = ''AC'' @ map last path
         \<and> successively (follows [(''AC'', [(''CA'', 2)]), (''CA'', [(''AC'', 1)])]) (''AC'' # path)
         \<and> distinct (''AC'' # butlast path))
   \<and> extend [(''AC'', [(''CA'', 2)]), (''CA'', [(''AC'', 1)])] ''CA'' ''ACA'' {''CA'', ''AC''} =
       Inr (''ACAC'', {''CA'', ''AC''})"
proof -
  let ?g = "[(''AC'', [(''CA'', 2::nat)]), (''CA'', [(''AC'', 1)])]"
  have w: "walk_contigs ?g = Inr [''ACAC'']"
    by (simp add: walk_contigs_def extend.simps select_next_def length_cap_def Let_def)
  have m: "map_of ?g ''CA'' = Some [(''AC'', 1)]" by simp
  have s: "select_next [(''AC'', 1)] = ''AC''" by (simp add: select_next_def)
  note t = cycle_guard_distinct_nodes [where g = ?g and k = 3 and reads = "[''ACACA'']"
      and cs = "[''ACAC'']" and cur = "''CA''" and seq = "''ACA''" and vis = "{''CA'', ''AC''}"
      and cnt = "[(''AC'', 1)]"]
  from t have e: "\<exists>cs. walk_contigs (fst (make_graph [''ACACA''] 3)) = Inr cs" by simp
  have h: "\<forall>c\<in>snd ` set [(''AC'', [] :: counter)]. [] \<notin> fst ` set c" by simp
  from cycle_guard_distinct_nodes [where g = "[(''AC'', [])]"] h
  have e': "\<exists>cs. walk_contigs [(''AC'', [])] = Inr cs" by blast
  from t w have A: "\<forall>c\<in>set [''ACAC'']. \<exists>s\<in>set (map fst ?g). \<exists>path.
           c = s @ map last path \<and> successively (follows ?g) (s # path)
           \<and> distinct (s # butlast path)
           \<and> length c \<le> length s + card (set (nodes ?g))" by blast
  from A have "\<exists>s\<in>set (map fst ?g). \<exists>path.
           ''ACAC'' = s @ map last path \<and> successively (follows ?g) (s # path)
           \<and> distinct (s # butlast path)
           \<and> length ''ACAC'' \<le> length s + card (set (nodes ?g))"
    by (rule bspec) simp
  then obtain s path where sp: "s \<in> set (map fst ?g)" "''ACAC'' = s @ map last path"
    "successively (follows ?g) (s # path)" "distinct (s # butlast path)" by blast
  from sp(1) have "s = ''AC'' \<or> s = ''CA''" by simp
  moreover have "s \<noteq> ''CA''"
  proof
    assume "s = ''CA''"
    with sp(2) have "''ACAC'' = ''CA'' @ map last path" by (simp only:)
    then show False by simp
  qed
  ultimately have "s = ''AC''" by blast
  with sp have p: "\<exists>path. ''ACAC'' = ''AC'' @ map last path
         \<and> successively (follows ?g) (''AC'' # path) \<and> distinct (''AC'' # butlast path)"
    by blast
  from t m s
  have x: "extend ?g ''CA'' ''ACA'' {''CA'', ''AC''} = Inr (''ACAC'', {''CA'', ''AC''})" by simp
  show ?thesis by (intro conjI cyclic_graph w e e' p x)
qed

text \<open>
  Not every graph gives contigs, and the last node of a contig may repeat: the graph built
  from the read \<open>ACG\<close> with \<open>k = 1\<close> has the empty node as a target and the traversal
  fails on it, and the contig \<open>ACAC\<close> of the cycle above passes the node \<open>AC\<close> at its
  start and again at its end.
\<close>

theorem every_graph_total_counterexample:
  "fst (make_graph [''ACG''] 1) = [([], [([], 3)])]
   \<and> walk_contigs [([], [([], 3)])] = Inl IndexError
   \<and> walk_contigs (fst (make_graph [''ACACA''] 3)) = Inr [''ACAC'']
   \<and> windows ''ACAC'' 2 = [''AC'', ''CA'', ''AC'']
   \<and> \<not> distinct (windows ''ACAC'' 2)"
proof -
  have g: "fst (make_graph [''ACG''] 1) = [([], [([], 3)])]"
    by (simp add: make_graph_def read_step_def window_step_def py_range_def py_slice_def
      py_index_def upt_rec Let_def)
  have s: "select_next [([], 3)] = []"
    by (simp add: select_next_def)
  have e: "extend [([], [([], 3)])] [] [] {[]} = Inl IndexError"
    by (subst extend.simps) (simp add: s Let_def)
  have a: "walk_contigs [([], [([], 3)])] = Inl IndexError"
    by (simp add: walk_contigs_def e)
  have w: "walk_contigs (fst (make_graph [''ACACA''] 3)) = Inr [''ACAC'']"
    unfolding cyclic_graph
    by (simp add: walk_contigs_def extend.simps select_next_def length_cap_def Let_def)
  have n: "windows ''ACAC'' 2 = [''AC'', ''CA'', ''AC'']"
    by (simp add: windows_def py_range_def py_slice_def py_index_def upt_rec Let_def)
  have d: "\<not> distinct (windows ''ACAC'' 2)" by (simp add: n)
  show ?thesis by (intro conjI g a w n d)
qed

subsection \<open>The length cap\<close>

text \<open>
  C9 (as the code has it). The cap is the constant 2000000. It is tested after each
  extension that marks a new node: when the contig is then longer than the cap the walk
  ends, so a contig is at most one symbol longer than the larger of its seed and the cap.
\<close>

theorem fixed_length_cap:
  "length_cap = 2000000
   \<and> (extend g cur seq vis = Inr (seq', vis') \<longrightarrow> length seq' \<le> max (length seq) length_cap + 1)
   \<and> (walk_contigs g = Inr cs \<longrightarrow>
        (\<forall>c\<in>set cs. \<exists>s\<in>set (map fst g). length c \<le> max (length s) length_cap + 1))
   \<and> (map_of g cur = Some cnt \<longrightarrow> cnt \<noteq> [] \<longrightarrow> select_next cnt \<noteq> [] \<longrightarrow>
        select_next cnt \<notin> vis \<longrightarrow> length_cap < Suc (length seq) \<longrightarrow>
        extend g cur seq vis =
          Inr (seq @ [last (select_next cnt)], insert (select_next cnt) vis))"
proof (intro conjI impI)
  show "length_cap = 2000000" by (rule length_cap_def)
next
  assume "extend g cur seq vis = Inr (seq', vis')"
  from extend_result [OF this]
  show "length seq' \<le> max (length seq) length_cap + 1" by blast
next
  assume w: "walk_contigs g = Inr cs"
  show "\<forall>c\<in>set cs. \<exists>s\<in>set (map fst g). length c \<le> max (length s) length_cap + 1"
  proof
    fix c assume "c \<in> set cs"
    from walk_contigs_seeded [OF w this] obtain s v v' where
      s: "s \<in> set (map fst g)" and e: "extend g s s (insert s v) = Inr (c, v')" by blast
    from extend_result [OF e] have "length c \<le> max (length s) length_cap + 1" by blast
    with s show "\<exists>s\<in>set (map fst g). length c \<le> max (length s) length_cap + 1" by blast
  qed
next
  assume "map_of g cur = Some cnt" "cnt \<noteq> []" "select_next cnt \<noteq> []"
    "select_next cnt \<notin> vis" "length_cap < Suc (length seq)"
  then show "extend g cur seq vis =
      Inr (seq @ [last (select_next cnt)], insert (select_next cnt) vis)"
    by (subst extend.simps) (simp add: Let_def)
qed

text \<open>
  A walk whose sequence has 2000000 symbols is extended once more and ends.
\<close>

theorem fixed_length_cap_witness:
  "extend [(''AC'', [(''CT'', 1)])] ''AC'' (replicate 2000000 (CHR ''A'')) {} =
     Inr (replicate 2000000 (CHR ''A'') @ ''T'', {''CT''})
   \<and> length (replicate 2000000 (CHR ''A'') @ ''T'') = 2000001"
proof -
  let ?h = "[(''AC'', [(''CT'', 1::nat)])]"
  let ?seq = "replicate 2000000 (CHR ''A'')"
  have s: "select_next [(''CT'', 1)] = ''CT''" by (simp add: select_next_def)
  have m1: "map_of ?h ''AC'' = Some [(''CT'', 1)]" by simp
  have m2: "[(''CT'', 1::nat)] \<noteq> []" by simp
  have m3: "select_next [(''CT'', 1)] \<noteq> []" unfolding s by simp
  have m4: "select_next [(''CT'', 1)] \<notin> {}" by simp
  have m5: "length_cap < Suc (length ?seq)" by (simp add: length_cap_def)
  from fixed_length_cap [where g = ?h and cur = "''AC''" and cnt = "[(''CT'', 1)]"
      and vis = "{}" and seq = ?seq] m1 m2 m3 m4 m5
  have "extend ?h ''AC'' ?seq {} =
      Inr (?seq @ [last (select_next [(''CT'', 1)])], insert (select_next [(''CT'', 1)]) {})"
    by blast
  then have a: "extend ?h ''AC'' ?seq {} = Inr (?seq @ ''T'', {''CT''})"
    unfolding s by simp
  have b: "length (?seq @ ''T'') = 2000001" by simp
  show ?thesis by (intro conjI a b)
qed

text \<open>
  The cap is not an argument of \<open>run_assembly\<close>, whose parameters are the reads and \<open>k\<close>:
  a caller wanting contigs capped at 3 symbols cannot say so, and the reads of the genome
  \<open>ACGTTGCA\<close> give a contig of 8 symbols.
\<close>

theorem caller_cap_counterexample:
  "length_cap = 2000000
   \<and> run_assembly [''ACGTT'', ''CGTTG'', ''GTTGC'', ''TTGCA''] 4 = Inr (8, 1)
   \<and> walk_contigs (fst (make_graph [''ACGTT'', ''CGTTG'', ''GTTGC'', ''TTGCA''] 4)) =
       Inr [''ACGTTGCA'']
   \<and> \<not> length ''ACGTTGCA'' \<le> 3 + 1"
proof -
  have r: "run_assembly [''ACGTT'', ''CGTTG'', ''GTTGC'', ''TTGCA''] 4 = Inr (8, 1)"
    unfolding run_assembly_fst example_graph example_walk
    by (simp add: contigs_n50_def sorted_lengths_def)
  have l: "\<not> length ''ACGTTGCA'' \<le> 3 + 1" by simp
  show ?thesis
    unfolding example_graph by (intro conjI length_cap_def r example_walk l)
qed

subsection \<open>Seeds\<close>

text \<open>
  C10. Every contig of a graph built by \<open>make_graph\<close> is the walk from a seed that is a
  key of the graph, hence a node with a non-empty counter; the seed has \<open>k - 1\<close> symbols, the
  walk follows at least one edge, and the contig has at least \<open>k\<close> symbols.
\<close>

theorem seeds_are_keys:
  assumes "walk_contigs (fst (make_graph reads k)) = Inr cs" and "c \<in> set cs"
  shows "(\<exists>s\<in>set (map fst (fst (make_graph reads k))). \<exists>v v' cnt.
           extend (fst (make_graph reads k)) s s (insert s v) = Inr (c, v')
         \<and> map_of (fst (make_graph reads k)) s = Some cnt \<and> cnt \<noteq> []
         \<and> (0 \<le> k \<longrightarrow> length s = nat k - 1)
         \<and> length s < length c)
     \<and> k \<le> int (length c)"
proof -
  let ?g = "fst (make_graph reads k)"
  from walk_contigs_seeded [OF assms] obtain s v v' where
    s: "s \<in> set (map fst ?g)" and e: "extend ?g s s (insert s v) = Inr (c, v')" by blast
  from s obtain cnt where m: "map_of ?g s = Some cnt"
    by (metis map_of_eq_None_iff not_Some_eq set_map)
  then have i: "(s, cnt) \<in> set ?g" by (rule map_of_SomeD)
  have "edges_ok (\<lambda>a b. True) ?g" by (rule edges_ok_make_graph) simp
  with i have ne: "cnt \<noteq> []" by (auto simp: edges_ok_def list_all_iff)
  from extend_result [OF e] m ne have l: "length s < length c" by blast
  have len: "length s = nat k - 1" if "0 \<le> k"
    using make_graph_node_lengths [OF that, of reads] i ne
    by (cases cnt) (auto simp: edges_ok_def list_all_iff)
  have "k \<le> int (length c)"
  proof (cases "0 \<le> k")
    case True
    from len [OF True] l show ?thesis by linarith
  next
    case False
    then show ?thesis by simp
  qed
  with s e m ne len l show ?thesis by blast
qed

text \<open>
  The read \<open>ACGT\<close> with \<open>k = 3\<close>: the node \<open>GT\<close> is only a target and seeds no contig.
\<close>

theorem seeds_are_keys_witness:
  "walk_contigs (fst (make_graph [''ACGT''] 3)) = Inr [''ACGT'']
   \<and> map fst (fst (make_graph [''ACGT''] 3)) = [''AC'', ''CG'']
   \<and> nodes (fst (make_graph [''ACGT''] 3)) = [''AC'', ''CG'', ''CG'', ''GT'']
   \<and> (3::int) \<le> int (length ''ACGT'')"
proof -
  have g: "fst (make_graph [''ACGT''] 3) = [(''AC'', [(''CG'', 1)]), (''CG'', [(''GT'', 1)])]"
    by (simp add: make_graph_def read_step_def window_step_def py_range_def py_slice_def
      py_index_def upt_rec Let_def)
  have w: "walk_contigs (fst (make_graph [''ACGT''] 3)) = Inr [''ACGT'']"
    unfolding g
    by (simp add: walk_contigs_def extend.simps select_next_def length_cap_def Let_def)
  have n: "nodes (fst (make_graph [''ACGT''] 3)) = [''AC'', ''CG'', ''CG'', ''GT'']"
    unfolding g by (simp add: nodes_def)
  have k: "map fst (fst (make_graph [''ACGT''] 3)) = [''AC'', ''CG'']"
    unfolding g by simp
  from seeds_are_keys [OF w, of "''ACGT''"] have "(3::int) \<le> int (length ''ACGT'')"
    by simp
  with w n k show ?thesis by blast
qed

subsection \<open>Window sizes below 2\<close>

lemma make_graph_empty_source:
  "edges_ok (\<lambda>a b. a = [] \<longrightarrow> b = []) (fst (make_graph reads k))"
proof (rule edges_ok_make_graph, intro ballI impI)
  fix r f assume "butlast f = []"
  then show "tl f = []" by (cases f) (auto split: if_splits)
qed

lemma empty_window:
  assumes "k < 0"
  shows "[] \<in> set (windows r k)"
proof -
  have lt: "nat (- k) < nat (int (length r) - k + 1)" using assms by linarith
  have eq: "- k = int (nat (- k))" using assms by simp
  have "- k \<in> int ` set [0..<nat (int (length r) - k + 1)]"
    by (rule image_eqI [where f = int and x = "nat (- k)"]) (use eq lt in simp_all)
  then have i: "- k \<in> set (py_range (int (length r) - k + 1))"
    by (simp only: py_range_def set_map)
  have e: "[] = py_slice r (- k) (- k + k)"
    by (simp add: py_slice_def py_index_def Let_def)
  have "[] \<in> (\<lambda>i. py_slice r i (i + k)) ` set (py_range (int (length r) - k + 1))"
    by (rule image_eqI [where f = "\<lambda>i. py_slice r i (i + k)" and x = "- k"]) (rule e, rule i)
  then have m: "[] \<in> set (map (\<lambda>i. py_slice r i (i + k)) (py_range (int (length r) - k + 1)))"
    by (simp only: set_map)
  have "\<not> int (length r) < k" using assms by linarith
  then have "windows r k = map (\<lambda>i. py_slice r i (i + k)) (py_range (int (length r) - k + 1))"
    by (simp only: windows_def if_False)
  with m show ?thesis by (simp only:)
qed

lemma empty_key_present:
  assumes "k < 2" and "fst (make_graph reads k) \<noteq> []"
  shows "[] \<in> set (map fst (fst (make_graph reads k)))"
proof (cases "0 \<le> k")
  case True
  let ?g = "fst (make_graph reads k)"
  from assms(2) obtain a c g' where g: "?g = (a, c) # g'"
    by (cases ?g) auto
  from make_graph_node_lengths [OF True, of reads] have "c \<noteq> []"
    and "list_all (\<lambda>(b, n). length a = nat k - 1 \<and> length b = nat k - 1) c"
    unfolding g edges_ok_def by simp_all
  then have "length a = nat k - 1" by (cases c) auto
  with assms(1) have "a = []" by simp
  then show ?thesis unfolding g by simp
next
  case False
  then have neg: "k < 0" by simp
  have "reads \<noteq> []"
  proof
    assume "reads = []"
    then have "fst (make_graph reads k) = []" by (simp add: make_graph_def)
    with assms(2) show False by simp
  qed
  then obtain r where r: "r \<in> set reads" by (cases reads) auto
  let ?n = "\<lambda>r. length (filter (\<lambda>f. CHR ''N'' \<notin> set f \<and> butlast f = [] \<and> tl f = [])
        (windows r k))"
  have "[] \<in> set (filter (\<lambda>f. CHR ''N'' \<notin> set f \<and> butlast f = [] \<and> tl f = []) (windows r k))"
    using empty_window [OF neg, of r] by simp
  then have "0 < ?n r" by (rule length_pos_if_in_set)
  moreover have "?n r \<le> sum_list (map ?n reads)"
    using r by (intro member_le_sum_list) simp_all
  ultimately have "0 < sum_list (map ?n reads)" by linarith
  then have "0 < multiplicity (fst (make_graph reads k)) [] []"
    by (simp only: multiplicity_make_graph)
  then have "map_of (fst (make_graph reads k)) [] \<noteq> None"
    by (auto simp: multiplicity_def split: option.splits)
  then show ?thesis by (simp add: map_of_eq_None_iff)
qed

lemma walk_starts_empty_key:
  assumes "map_of g [] = Some c" and "c \<noteq> []" and "select_next c = []"
  shows "[] \<in> set starts \<Longrightarrow> [] \<notin> vis \<Longrightarrow> walk_starts g starts cs vis = Inl IndexError"
proof (induction starts arbitrary: cs vis)
  case Nil
  then show ?case by simp
next
  case (Cons s starts)
  show ?case
  proof (cases "s \<in> vis")
    case True
    with Cons.prems have "[] \<in> set starts" by auto
    from Cons.IH [OF this Cons.prems(2)] True show ?thesis by simp
  next
    case False
    show ?thesis
    proof (cases "s = []")
      case True
      have "extend g [] [] (insert [] vis) = Inl IndexError"
        using assms by (subst extend.simps) (simp add: Let_def)
      with True False show ?thesis by simp
    next
      case ne: False
      with Cons.prems have in_rest: "[] \<in> set starts" by auto
      show ?thesis
      proof (cases "extend g s s (insert s vis)")
        case (Inl e)
        have "e = IndexError" by (cases e) simp
        with Inl False show ?thesis by simp
      next
        case (Inr res)
        obtain seq v' where res: "res = (seq, v')" by (cases res)
        from extend_result [OF Inr [unfolded res]] have "[] \<notin> v' - insert s vis" by blast
        with Cons.prems(2) ne have "[] \<notin> v'" by auto
        from Cons.IH [OF in_rest this] Inr res False show ?thesis by simp
      qed
    qed
  qed
qed

lemma small_k_result:
  assumes "k < 2" and "run_assembly reads k = Inr res"
  shows "fst (make_graph reads k) = []"
proof (rule ccontr)
  let ?g = "fst (make_graph reads k)"
  assume ne: "?g \<noteq> []"
  from empty_key_present [OF assms(1) ne] have key: "[] \<in> set (map fst ?g)" .
  then obtain c where m: "map_of ?g [] = Some c"
    by (metis map_of_eq_None_iff not_Some_eq set_map)
  then have i: "([], c) \<in> set ?g" by (rule map_of_SomeD)
  with make_graph_empty_source [of reads k]
  have c: "c \<noteq> []" and t: "\<forall>(b, n)\<in>set c. b = []"
    by (auto simp: edges_ok_def list_all_iff)
  from select_next_in [OF c] t have "select_next c = []" by auto
  from walk_starts_empty_key [OF m c this key, of "{}" "[]"]
  have "walk_contigs ?g = Inl IndexError" by (simp add: walk_contigs_def)
  with assms(2) show False by (simp add: run_assembly_fst)
qed

text \<open>
  C6 (as the code has it). \<open>k\<close> is not validated. With \<open>k < 2\<close> the assembly returns the
  empty result, zero contigs and N50 0, when every read is shorter than \<open>k\<close> (in particular
  when there are no reads), and whatever result it returns is that empty result: it never
  yields a contig.
\<close>

theorem small_k_not_rejected:
  assumes "k < 2"
  shows "((\<forall>r\<in>set reads. int (length r) < k) \<longrightarrow> run_assembly reads k = Inr (0, 0))
     \<and> (\<forall>res. run_assembly reads k = Inr res \<longrightarrow> res = (0, 0))"
proof (intro conjI impI allI)
  assume "\<forall>r\<in>set reads. int (length r) < k"
  then have "make_graph reads k = ([], [], [])"
    unfolding make_graph_def by (rule make_graph_all_short)
  then show "run_assembly reads k = Inr (0, 0)" by (simp add: empty_graph_result)
next
  fix res assume r: "run_assembly reads k = Inr res"
  from small_k_result [OF assms r] have "run_assembly reads k = Inr (0, 0)"
    by (rule empty_graph_result)
  with r show "res = (0, 0)" by simp
qed

text \<open>
  No reads, with \<open>k = 1\<close> and with \<open>k = 0\<close>.
\<close>

theorem small_k_not_rejected_witness:
  "(1::int) < 2 \<and> run_assembly [] 1 = Inr (0, 0)
   \<and> (0::int) < 2 \<and> run_assembly [] 0 = Inr (0, 0)"
proof -
  have h1: "(1::int) < 2" and h0: "(0::int) < 2" by simp_all
  have e1: "\<forall>r\<in>set ([]::string list). int (length r) < 1"
    and e0: "\<forall>r\<in>set ([]::string list). int (length r) < 0" by simp_all
  from small_k_not_rejected [OF h1, of "[]"] e1
  have r1: "run_assembly [] 1 = Inr (0, 0)" by blast
  from small_k_not_rejected [OF h0, of "[]"] e0
  have r0: "run_assembly [] 0 = Inr (0, 0)" by blast
  show ?thesis by (intro conjI h1 r1 h0 r0)
qed

text \<open>
  With \<open>k = 1\<close> the call without reads returns a result. Where the call does fail, for the
  read \<open>ACG\<close>, the graph has been built (the empty node with a loop of multiplicity 3) and
  the failure is the \<open>IndexError\<close> of line 97.
\<close>

theorem invalid_config_counterexample:
  "run_assembly [] 1 = Inr (0, 0)
   \<and> fst (make_graph [''ACG''] 1) = [([], [([], 3)])]
   \<and> run_assembly [''ACG''] 1 = Inl IndexError"
proof -
  have a: "run_assembly [] 1 = Inr (0, 0)"
    by (rule empty_graph_result) (simp add: make_graph_def)
  have g: "fst (make_graph [''ACG''] 1) = [([], [([], 3)])]"
    by (simp add: make_graph_def read_step_def window_step_def py_range_def py_slice_def
      py_index_def upt_rec Let_def)
  have s: "select_next [([], 3)] = []"
    by (simp add: select_next_def)
  have e: "extend [([], [([], 3)])] [] [] {[]} = Inl IndexError"
    by (subst extend.simps) (simp add: s Let_def)
  have b: "run_assembly [''ACG''] 1 = Inl IndexError"
    unfolding run_assembly_fst g by (simp add: walk_contigs_def e)
  show ?thesis unfolding g by (intro conjI a refl b)
qed

end
